theory Spec2Isabelle
  imports Main
begin

section \<open>The placeholder resolver of \<^verbatim>\<open>kickstart-scripts/utility.mjs\<close>\<close>

text \<open>
  The function \<^verbatim>\<open>replacePlaceholder\<close> replaces every match of a regular expression in a
  text by the content of a fragment file and calls itself on that content. JavaScript strings
  are modelled as \<^typ>\<open>string\<close>: the characters are the 8-bit characters of HOL, of which
  line feed and carriage return are the line terminators that \<^verbatim>\<open>.\<close> refuses.
\<close>

subsection \<open>String helpers of the callback\<close>

text \<open>\<^verbatim>\<open>string.replace(new RegExp('(\{|\})*', 'g'), '')\<close>: every run of braces is deleted.\<close>

definition strip_braces :: "string \<Rightarrow> string" where
  "strip_braces s = filter (\<lambda>c. c \<noteq> CHR ''{'' \<and> c \<noteq> CHR ''}'') s"

text \<open>\<^verbatim>\<open>String.prototype.split\<close> at a one-character separator: the result is never empty,
  and an empty input gives one empty part.\<close>

primrec split_on :: "char \<Rightarrow> string \<Rightarrow> string list" where
  "split_on d [] = [[]]"
| "split_on d (c # cs) =
     (if c = d then [] # split_on d cs
      else (case split_on d cs of [] \<Rightarrow> [[c]] | x # xs \<Rightarrow> (c # x) # xs))"

primrec join_with :: "string \<Rightarrow> string list \<Rightarrow> string" where
  "join_with sep [] = []"
| "join_with sep (x # xs) = (if xs = [] then x else x @ sep @ join_with sep xs)"

subsection \<open>\<^verbatim>\<open>path.join\<close> of Node.js on POSIX\<close>

text \<open>
  \<^verbatim>\<open>normalizeString\<close> walks the segments between slashes: empty segments and \<^verbatim>\<open>.\<close> are
  dropped, \<^verbatim>\<open>..\<close> removes the segment before it, or stays when nothing is left to remove and
  the path is relative. The accumulator holds the kept segments, last first.
\<close>

fun normalizeString :: "bool \<Rightarrow> string list \<Rightarrow> string list \<Rightarrow> string list" where
  "normalizeString allowAboveRoot res [] = rev res"
| "normalizeString allowAboveRoot res (seg # segs) =
     (if seg = [] \<or> seg = ''.'' then normalizeString allowAboveRoot res segs
      else if seg = ''..'' then
        (case res of
           [] \<Rightarrow> normalizeString allowAboveRoot (if allowAboveRoot then [''..''] else []) segs
         | prev # below \<Rightarrow>
             if prev = ''..'' then normalizeString allowAboveRoot (''..'' # res) segs
             else normalizeString allowAboveRoot below segs)
      else normalizeString allowAboveRoot (seg # res) segs)"

definition normalize :: "string \<Rightarrow> string" where
  "normalize path =
     (if path = [] then ''.''
      else
        let isAbsolute = (hd path = CHR ''/'');
            trailingSeparator = (last path = CHR ''/'');
            p = join_with ''/'' (normalizeString (\<not> isAbsolute) [] (split_on CHR ''/'' path))
        in if p = [] then (if isAbsolute then ''/'' else if trailingSeparator then ''./'' else ''.'')
           else (if isAbsolute then ''/'' else []) @ p @ (if trailingSeparator then ''/'' else []))"

definition path_join :: "string list \<Rightarrow> string" where
  "path_join args =
     (let joined = join_with ''/'' (filter (\<lambda>arg. arg \<noteq> []) args)
      in if joined = [] then ''.'' else normalize joined)"

subsection \<open>The regular expression\<close>

text \<open>
  A backtracking matcher in the style of the ECMAScript specification: a matcher takes the
  rest of the input and a continuation, and the first way to succeed wins. The pattern is
  \<^verbatim>\<open>{(app|deferred|svg):{([\w|\-]{0,})}}|{(app|deferred|svg):{(.+):{(.+)}}}\<close>;
  it needs literal text, alternatives, sequences and greedy repetition of a character class
  with a lower bound.
\<close>

datatype rx = Str string | Rep "char \<Rightarrow> bool" nat | Alt rx rx | Seq rx rx

fun rep_greedy :: "(char \<Rightarrow> bool) \<Rightarrow> nat \<Rightarrow> string \<Rightarrow> (string \<Rightarrow> string option) \<Rightarrow> string option" where
  "rep_greedy P n [] k = (if n = 0 then k [] else None)"
| "rep_greedy P n (c # cs) k =
     (if P c then
        (case rep_greedy P (n - 1) cs k of
           Some r \<Rightarrow> Some r
         | None \<Rightarrow> if n = 0 then k (c # cs) else None)
      else if n = 0 then k (c # cs) else None)"

fun rx_match :: "rx \<Rightarrow> string \<Rightarrow> (string \<Rightarrow> string option) \<Rightarrow> string option" where
  "rx_match (Str l) s k = (if take (length l) s = l then k (drop (length l) s) else None)"
| "rx_match (Rep P n) s k = rep_greedy P n s k"
| "rx_match (Alt a b) s k = (case rx_match a s k of Some r \<Rightarrow> Some r | None \<Rightarrow> rx_match b s k)"
| "rx_match (Seq a b) s k = rx_match a s (\<lambda>s'. rx_match b s' k)"

text \<open>The strings a pattern denotes; the matcher is sound and complete for them.\<close>

fun rx_lang :: "rx \<Rightarrow> string set" where
  "rx_lang (Str l) = {l}"
| "rx_lang (Rep P n) = {u. n \<le> length u \<and> (\<forall>c\<in>set u. P c)}"
| "rx_lang (Alt a b) = rx_lang a \<union> rx_lang b"
| "rx_lang (Seq a b) = {u @ v | u v. u \<in> rx_lang a \<and> v \<in> rx_lang b}"

definition word_char :: "char \<Rightarrow> bool" where
  "word_char c = (c \<in> set ''abcdefghijklmnopqrstuvwxyzABCDEFGHIJKLMNOPQRSTUVWXYZ0123456789_'')"

text \<open>The class \<^verbatim>\<open>[\w|\-]\<close>: inside brackets the bar is an ordinary character.\<close>

definition category_char :: "char \<Rightarrow> bool" where
  "category_char c = (word_char c \<or> c = CHR ''|'' \<or> c = CHR ''-'')"

text \<open>The dot matches everything but a line terminator.\<close>

definition dot_char :: "char \<Rightarrow> bool" where
  "dot_char c = (c \<noteq> CHR 0x0A \<and> c \<noteq> CHR 0x0D)"

definition kind_rx :: rx where
  "kind_rx = Alt (Str ''app'') (Alt (Str ''deferred'') (Str ''svg''))"

definition placeholder_rx :: rx where
  "placeholder_rx =
     Alt (Seq (Str ''{'') (Seq kind_rx (Seq (Str '':{'') (Seq (Rep category_char 0) (Str ''}}'')))))
         (Seq (Str ''{'') (Seq kind_rx (Seq (Str '':{'')
            (Seq (Rep dot_char 1) (Seq (Str '':{'') (Seq (Rep dot_char 1) (Str ''}}}'')))))))"

text \<open>The two shapes of text the pattern accepts, and the three kinds.\<close>

definition kinds :: "string set" where
  "kinds = {''app'', ''deferred'', ''svg''}"

definition two_part :: "string \<Rightarrow> string \<Rightarrow> string" where
  "two_part kind category = ''{'' @ kind @ '':{'' @ category @ ''}}''"

definition three_part :: "string \<Rightarrow> string \<Rightarrow> string \<Rightarrow> string" where
  "three_part kind category name = ''{'' @ kind @ '':{'' @ category @ '':{'' @ name @ ''}}}''"

text \<open>One attempt at the start of \<open>s\<close>: the number of characters of the match.\<close>

definition exec_at :: "string \<Rightarrow> nat option" where
  "exec_at s = map_option (\<lambda>rest. length s - length rest) (rx_match placeholder_rx s Some)"

subsection \<open>\<^verbatim>\<open>String.prototype.replace\<close> with a global pattern and a function\<close>

text \<open>
  The search starts again behind each match; where no match starts, the character is kept
  and the search moves on by one; behind an empty match it moves on by one as well.
\<close>

datatype piece = Text char | Match string

fun piece_text :: "piece \<Rightarrow> string" where
  "piece_text (Text c) = [c]"
| "piece_text (Match m) = m"

fun scan :: "string \<Rightarrow> piece list" where
  "scan [] = (case exec_at [] of None \<Rightarrow> [] | Some e \<Rightarrow> [Match []])"
| "scan (c # cs) =
     (case exec_at (c # cs) of
        None \<Rightarrow> Text c # scan cs
      | Some 0 \<Rightarrow> Match [] # Text c # scan cs
      | Some (Suc e) \<Rightarrow> Match (take (Suc e) (c # cs)) # scan (drop e cs))"

datatype error = TypeError | ReadError string | RangeError

type_synonym result = "string \<times> error list"

text \<open>The results of two parts of the text in sequence: both must return; outputs and
  logs are appended in the order of evaluation.\<close>

fun then_result :: "result option \<Rightarrow> result option \<Rightarrow> result option" where
  "then_result None y = None"
| "then_result (Some x) None = None"
| "then_result (Some (out1, log1)) (Some (out2, log2)) = Some (out1 @ out2, log1 @ log2)"

fun replace_pieces :: "(string \<Rightarrow> result option) \<Rightarrow> piece list \<Rightarrow> result option" where
  "replace_pieces f [] = Some ([], [])"
| "replace_pieces f (Text c # ps) = then_result (Some ([c], [])) (replace_pieces f ps)"
| "replace_pieces f (Match m # ps) = then_result (f m) (replace_pieces f ps)"

subsection \<open>The file system and the callback\<close>

text \<open>
  A path that exists holds a file with its text, or something \<^verbatim>\<open>readFileSync\<close> throws on
  (a directory, a file without read permission). \<^verbatim>\<open>showError\<close> appends to the log.
\<close>

datatype node = File string | Unreadable

type_synonym filesystem = "string \<rightharpoonup> node"

text \<open>
  The variables of the callback as functions of the matched text: \<^verbatim>\<open>match\<close>, \<^verbatim>\<open>isSvg\<close>,
  \<^verbatim>\<open>filepath\<close>, \<^verbatim>\<open>start\<close> and \<^verbatim>\<open>end\<close>. The path is read only where \<^verbatim>\<open>match\<close> has two
  parts at least, which the callback checks first: with fewer, \<^verbatim>\<open>path.join\<close> throws and no
  path exists.
\<close>

definition token_match :: "string \<Rightarrow> string list" where
  "token_match string = split_on CHR '':'' (strip_braces string)"

definition token_isSvg :: "string \<Rightarrow> bool" where
  "token_isSvg string = (token_match string ! 0 = ''svg'')"

definition token_filepath :: "string \<Rightarrow> string" where
  "token_filepath string =
     (let match = token_match string;
          type = match ! 0;
          isSvg = (type = ''svg'');
          extension = (if isSvg then ''.svg'' else ''.html'');
          folder = match ! 1;
          file = (if length match > 2 then match ! 2 else folder);
          type = (if type \<noteq> ''app'' then ''app/_'' @ type else type)
      in path_join [''components'', type, folder, file @ extension])"

definition banner_start :: "string \<Rightarrow> string" where
  "banner_start string =
     (if token_isSvg string then ''<!-- START '' @ token_filepath string @ '' -->'' @ [CHR 0x0A] else [])"

definition banner_end :: "string \<Rightarrow> string" where
  "banner_end string =
     (if token_isSvg string then ''<!-- END '' @ token_filepath string @ '' -->'' @ [CHR 0x0A] else [])"

text \<open>
  The function passed to \<^verbatim>\<open>replace\<close>. With fewer than two parts \<^verbatim>\<open>match[1]\<close> is undefined
  and \<^verbatim>\<open>path.join\<close> throws a TypeError, which the \<^verbatim>\<open>catch\<close> reports; the token is returned.
  \<open>recur\<close> is the recursive call \<^verbatim>\<open>replacePlaceholder(fileContent)\<close>; where it gives no
  value, neither does \<open>callback\<close>, which is the \<^verbatim>\<open>try\<close> block with the failures of its own
  statements.
\<close>

definition callback :: "(string \<Rightarrow> result option) \<Rightarrow> filesystem \<Rightarrow> string \<Rightarrow> result option" where
  "callback recur fs string =
     (if length (token_match string) < 2 then Some (string, [TypeError])
      else
        let filepath = token_filepath string
        in case fs filepath of
             None \<Rightarrow> Some (string, [])
           | Some Unreadable \<Rightarrow> Some (string, [ReadError filepath])
           | Some (File fileContent) \<Rightarrow>
               recur (banner_start string @ fileContent @ banner_end string))"

text \<open>
  \<^verbatim>\<open>replacePlaceholder\<close> on a call stack without end, where no call fails for lack of stack.
  The first argument bounds the depth of the recursion; \<open>None\<close> says that the bound was
  reached, so a call that never returns is \<open>None\<close> at every bound.
\<close>

fun replacePlaceholder :: "nat \<Rightarrow> filesystem \<Rightarrow> string \<Rightarrow> result option" where
  "replacePlaceholder 0 fs content = None"
| "replacePlaceholder (Suc n) fs content =
     replace_pieces (callback (replacePlaceholder n fs) fs) (scan content)"

subsection \<open>The call stack of the engine\<close>



subsection \<open>The inclusion graph\<close>




subsection \<open>Notions of the statements\<close>

text \<open>A path segment that normalisation keeps as it is; the folder of a kind and its
  file extension.\<close>

definition plain_segment :: "string \<Rightarrow> bool" where
  "plain_segment seg = (seg \<noteq> [] \<and> CHR ''/'' \<notin> set seg \<and> seg \<noteq> ''.'' \<and> seg \<noteq> ''..'')"

definition mapped_kind :: "string \<Rightarrow> string" where
  "mapped_kind kind = (if kind = ''app'' then kind else ''app/_'' @ kind)"

definition kind_extension :: "string \<Rightarrow> string" where
  "kind_extension kind = (if kind = ''svg'' then ''.svg'' else ''.html'')"

subsection \<open>File systems of the examples\<close>

definition fs_nested :: filesystem where
  "fs_nested = [''components/app/a/a.html'' \<mapsto> File ''{app:{b}}'',
                ''components/app/b/b.html'' \<mapsto> File ''Y'']"

definition fs_icon :: filesystem where
  "fs_icon = [''components/app/_svg/icon/icon.svg'' \<mapsto> File ''X'']"

definition fs_broken :: filesystem where
  "fs_broken = [''components/app/teaser/teaser.html'' \<mapsto> Unreadable,
                ''components/app/footer/footer.html'' \<mapsto> File ''F'']"

definition fs_assemble :: filesystem where
  "fs_assemble = [''components/app/a/a.html'' \<mapsto> File ''{app:{c}}{b}}'',
                  ''components/app/c/c.html'' \<mapsto> File ''{app:'',
                  ''components/app/b/b.html'' \<mapsto> File ''Y'']"

definition fs_cat_name :: filesystem where
  "fs_cat_name = [''components/app/cat/name.html'' \<mapsto> File ''X'']"


section \<open>Properties\<close>

subsection \<open>The matcher and the scan\<close>

lemma split_on_not_Nil: "split_on d s \<noteq> []"
  by (induction s) (auto split: list.splits)

lemma split_on_no_sep: "d \<notin> set s \<Longrightarrow> split_on d s = [s]"
  by (induction s) auto

lemma split_on_append: "d \<notin> set a \<Longrightarrow> split_on d (a @ d # b) = a # split_on d b"
  by (induction a) auto

lemma rep_greedy_sound:
  "rep_greedy P n s k = Some x \<Longrightarrow>
   \<exists>u v. s = u @ v \<and> n \<le> length u \<and> (\<forall>c\<in>set u. P c) \<and> k v = Some x"
proof (induction s arbitrary: n)
  case Nil
  then show ?case by (auto split: if_splits)
next
  case (Cons c cs)
  show ?case
  proof (cases "P c \<and> rep_greedy P (n - 1) cs k = Some x")
    case True
    with Cons.IH [of "n - 1"] obtain u v where
      "cs = u @ v" "n - 1 \<le> length u" "\<forall>c\<in>set u. P c" "k v = Some x" by blast
    with True have "c # cs = (c # u) @ v \<and> n \<le> length (c # u) \<and> (\<forall>a\<in>set (c # u). P a) \<and> k v = Some x"
      by auto
    then show ?thesis by blast
  next
    case False
    with Cons.prems have "n = 0 \<and> k (c # cs) = Some x"
      by (auto split: if_splits option.splits)
    then have "c # cs = [] @ (c # cs) \<and> n \<le> length ([]::string) \<and> (\<forall>a\<in>set ([]::string). P a) \<and> k (c # cs) = Some x"
      by simp
    then show ?thesis by blast
  qed
qed

lemma rep_greedy_complete:
  "n \<le> length u \<Longrightarrow> \<forall>c\<in>set u. P c \<Longrightarrow> k v \<noteq> None \<Longrightarrow> rep_greedy P n (u @ v) k \<noteq> None"
proof (induction u arbitrary: n)
  case Nil
  then show ?case by (cases v) (auto split: option.splits)
next
  case (Cons c u)
  from Cons.prems have "rep_greedy P (n - 1) (u @ v) k \<noteq> None"
    by (intro Cons.IH) auto
  with Cons.prems show ?case by (auto split: option.splits)
qed

lemma rx_match_sound:
  "rx_match r s k = Some x \<Longrightarrow> \<exists>u v. s = u @ v \<and> u \<in> rx_lang r \<and> k v = Some x"
proof (induction r arbitrary: s k)
  case (Str l)
  then have "s = l @ drop (length l) s \<and> k (drop (length l) s) = Some x"
    by (auto split: if_splits) (metis append_take_drop_id)
  then show ?case by auto
next
  case (Rep P n)
  then show ?case using rep_greedy_sound [of P n s k x] by auto
next
  case (Alt a b)
  then show ?case by (auto split: option.splits) blast+
next
  case (Seq a b)
  from Seq.prems have "rx_match a s (\<lambda>s'. rx_match b s' k) = Some x" by simp
  from Seq.IH(1) [OF this] obtain u v where uv: "s = u @ v" "u \<in> rx_lang a" "rx_match b v k = Some x"
    by blast
  from Seq.IH(2) [OF uv(3)] obtain u' v' where "v = u' @ v'" "u' \<in> rx_lang b" "k v' = Some x"
    by blast
  with uv have "s = (u @ u') @ v' \<and> u @ u' \<in> rx_lang (Seq a b) \<and> k v' = Some x" by auto
  then show ?case by blast
qed

lemma rx_match_complete:
  "u \<in> rx_lang r \<Longrightarrow> k v \<noteq> None \<Longrightarrow> rx_match r (u @ v) k \<noteq> None"
proof (induction r arbitrary: u v k)
  case (Str l)
  then show ?case by simp
next
  case (Rep P n)
  then show ?case using rep_greedy_complete [of n u P k v] by simp
next
  case (Alt a b)
  show ?case
  proof (cases "u \<in> rx_lang a")
    case True
    from Alt.IH(1) [of u k v] True Alt.prems(2) show ?thesis by (auto split: option.splits)
  next
    case False
    with Alt.prems have "u \<in> rx_lang b" by simp
    from Alt.IH(2) [of u k v] this Alt.prems(2) show ?thesis by (auto split: option.splits)
  qed
next
  case (Seq a b)
  from Seq.prems obtain u1 u2 where u: "u = u1 @ u2" "u1 \<in> rx_lang a" "u2 \<in> rx_lang b" by auto
  have "rx_match b (u2 @ v) k \<noteq> None" using Seq.IH(2) [of u2 k v] u(3) Seq.prems(2) by simp
  then have "rx_match a (u1 @ (u2 @ v)) (\<lambda>s'. rx_match b s' k) \<noteq> None"
    using Seq.IH(1) [of u1 "\<lambda>s'. rx_match b s' k" "u2 @ v"] u(2) by simp
  with u show ?case by simp
qed

lemma exec_at_Some:
  "exec_at s = Some e \<Longrightarrow> e \<le> length s \<and> take e s \<in> rx_lang placeholder_rx"
proof -
  assume "exec_at s = Some e"
  then obtain rest where r: "rx_match placeholder_rx s Some = Some rest" "e = length s - length rest"
    by (auto simp: exec_at_def)
  from rx_match_sound [OF r(1)] obtain u where "s = u @ rest" "u \<in> rx_lang placeholder_rx" by auto
  with r(2) show ?thesis by auto
qed

lemma exec_at_None_iff:
  "exec_at s = None \<longleftrightarrow> (\<forall>u v. s = u @ v \<longrightarrow> u \<notin> rx_lang placeholder_rx)"
proof
  assume n: "exec_at s = None"
  show "\<forall>u v. s = u @ v \<longrightarrow> u \<notin> rx_lang placeholder_rx"
  proof (intro allI impI notI)
    fix u v assume "s = u @ v" "u \<in> rx_lang placeholder_rx"
    then have "rx_match placeholder_rx s Some \<noteq> None"
      using rx_match_complete [of u placeholder_rx Some v] by simp
    with n show False by (simp add: exec_at_def)
  qed
next
  assume a: "\<forall>u v. s = u @ v \<longrightarrow> u \<notin> rx_lang placeholder_rx"
  show "exec_at s = None"
  proof (cases "exec_at s")
    case (Some e)
    from exec_at_Some [OF this] have "take e s \<in> rx_lang placeholder_rx" by simp
    moreover have "s = take e s @ drop e s" by simp
    ultimately show ?thesis using a by blast
  qed simp
qed

lemma scan_text: "concat (map piece_text (scan s)) = s"
  by (induction s rule: scan.induct) (auto split: option.splits nat.splits)

lemma kind_lang: "rx_lang kind_rx = kinds"
  by (auto simp: kind_rx_def kinds_def)

lemma placeholder_lang:
  "rx_lang placeholder_rx =
     {two_part k c | k c. k \<in> kinds \<and> (\<forall>x\<in>set c. category_char x)} \<union>
     {three_part k c n | k c n. k \<in> kinds \<and> c \<noteq> [] \<and> n \<noteq> [] \<and>
        (\<forall>x\<in>set c. dot_char x) \<and> (\<forall>x\<in>set n. dot_char x)}"
  (is "?L = ?A \<union> ?B")
proof -
  have one: "\<And>u::string. 1 \<le> length u \<longleftrightarrow> u \<noteq> []" by (simp add: Suc_le_eq)
  have "?L = {''{'' @ k @ '':{'' @ c @ ''}}'' | k c. k \<in> rx_lang kind_rx \<and> (\<forall>x\<in>set c. category_char x)} \<union>
    {''{'' @ k @ '':{'' @ c @ '':{'' @ n @ ''}}}'' | k c n. k \<in> rx_lang kind_rx \<and> c \<noteq> [] \<and> n \<noteq> [] \<and>
        (\<forall>x\<in>set c. dot_char x) \<and> (\<forall>x\<in>set n. dot_char x)}"
    unfolding placeholder_rx_def rx_lang.simps one
    by (rule arg_cong2 [where f = "(\<union>)"]) (auto, blast+)
  then show ?thesis by (simp add: kind_lang two_part_def three_part_def)
qed

lemma kinds_plain: "k \<in> kinds \<Longrightarrow> strip_braces k = k \<and> CHR '':'' \<notin> set k \<and> k \<noteq> []"
  by (auto simp: kinds_def strip_braces_def)

lemma strip_braces_append: "strip_braces (a @ b) = strip_braces a @ strip_braces b"
  by (simp add: strip_braces_def)

lemma strip_braces_id: "CHR ''{'' \<notin> set s \<Longrightarrow> CHR ''}'' \<notin> set s \<Longrightarrow> strip_braces s = s"
  unfolding strip_braces_def by (induction s) auto

lemma token_match_two_part_gen:
  "k \<in> kinds \<Longrightarrow> token_match (two_part k c) = k # split_on CHR '':'' (strip_braces c)"
  using kinds_plain [of k] split_on_append [of "CHR '':''" k "strip_braces c"]
  by (simp add: token_match_def two_part_def strip_braces_append) (simp add: strip_braces_def)

lemma token_match_three_part_gen:
  "k \<in> kinds \<Longrightarrow> token_match (three_part k c n) = k # split_on CHR '':'' (strip_braces (c @ '':'' @ n))"
  using kinds_plain [of k] split_on_append [of "CHR '':''" k "strip_braces (c @ '':'' @ n)"]
  by (simp add: token_match_def three_part_def strip_braces_append) (simp add: strip_braces_def)

lemma token_match_lang:
  "t \<in> rx_lang placeholder_rx \<Longrightarrow> 2 \<le> length (token_match t) \<and> token_match t ! 0 \<in> kinds"
  unfolding placeholder_lang
  using split_on_not_Nil
  by (auto simp: token_match_two_part_gen token_match_three_part_gen Suc_le_eq)

lemma token_match_two_part:
  assumes "k \<in> kinds" "\<forall>x\<in>set c. x \<notin> {CHR ''{'', CHR ''}'', CHR '':''}"
  shows "token_match (two_part k c) = [k, c]"
proof -
  from assms(2) have "strip_braces c = c" "CHR '':'' \<notin> set c"
    by (auto intro: strip_braces_id)
  then show ?thesis using assms(1) by (simp add: token_match_two_part_gen split_on_no_sep)
qed

lemma token_match_three_part:
  assumes "k \<in> kinds" "\<forall>x\<in>set (c @ n). x \<notin> {CHR ''{'', CHR ''}'', CHR '':''}"
  shows "token_match (three_part k c n) = [k, c, n]"
proof -
  from assms(2) have c: "strip_braces c = c" "CHR '':'' \<notin> set c"
    and n: "strip_braces n = n" "CHR '':'' \<notin> set n"
    by (auto intro: strip_braces_id)
  have "strip_braces (c @ '':'' @ n) = c @ CHR '':'' # n"
    using c n by (simp add: strip_braces_append) (simp add: strip_braces_def)
  then show ?thesis
    using assms(1) c n by (simp add: token_match_three_part_gen split_on_append split_on_no_sep)
qed

lemma empty_not_lang: "[] \<notin> rx_lang placeholder_rx"
  by (simp add: placeholder_lang two_part_def three_part_def)

lemma scan_matches: "Match t \<in> set (scan s) \<Longrightarrow> t \<in> rx_lang placeholder_rx"
proof (induction s rule: scan.induct)
  case 1
  have "exec_at [] = None" using empty_not_lang by (simp add: exec_at_None_iff)
  with 1 show ?case by simp
next
  case (2 c cs)
  show ?case
  proof (cases "exec_at (c # cs)")
    case None
    with 2 show ?thesis by simp
  next
    case (Some e)
    from exec_at_Some [OF Some] have e: "take e (c # cs) \<in> rx_lang placeholder_rx" by simp
    with empty_not_lang obtain e' where e': "e = Suc e'" by (cases e) auto
    with 2 Some e show ?thesis by auto
  qed
qed

lemmas pattern_defs = exec_at_def placeholder_rx_def kind_rx_def category_char_def word_char_def
  dot_char_def

lemmas callback_defs = token_filepath_def token_match_def strip_braces_def path_join_def
  normalize_def callback_def banner_start_def banner_end_def token_isSvg_def

subsection \<open>Replacement piece by piece\<close>

lemma then_result_assoc: "then_result (then_result a b) c = then_result a (then_result b c)"
  by (cases a; cases b; cases c) auto

lemma then_result_Nil [simp]: "then_result (Some ([], [])) y = y"
  by (cases y) auto

lemma replace_pieces_append:
  "replace_pieces f (ps @ qs) = then_result (replace_pieces f ps) (replace_pieces f qs)"
proof (induction ps)
  case Nil
  then show ?case by simp
next
  case (Cons p ps)
  then show ?case by (cases p) (simp_all add: then_result_assoc)
qed

lemma replace_pieces_Text: "replace_pieces f (map Text s) = Some (s, [])"
  by (induction s) auto

lemma scan_no_match:
  "(\<forall>a u b. s = a @ u @ b \<longrightarrow> u \<notin> rx_lang placeholder_rx) \<longleftrightarrow> scan s = map Text s"
proof (induction s)
  case Nil
  have "exec_at [] = None" using empty_not_lang by (simp add: exec_at_None_iff)
  then show ?case using empty_not_lang by simp
next
  case (Cons c cs)
  show ?case
  proof
    assume a: "\<forall>a u b. c # cs = a @ u @ b \<longrightarrow> u \<notin> rx_lang placeholder_rx"
    have "exec_at (c # cs) = None"
      unfolding exec_at_None_iff using a by (metis append_Nil)
    moreover have "\<forall>a u b. cs = a @ u @ b \<longrightarrow> u \<notin> rx_lang placeholder_rx"
      using a by (metis append_Cons)
    ultimately show "scan (c # cs) = map Text (c # cs)" using Cons.IH by simp
  next
    assume s: "scan (c # cs) = map Text (c # cs)"
    then have n: "exec_at (c # cs) = None" by (auto split: option.splits nat.splits)
    with s have "scan cs = map Text cs" by simp
    with Cons.IH have ih: "\<forall>a u b. cs = a @ u @ b \<longrightarrow> u \<notin> rx_lang placeholder_rx" by simp
    show "\<forall>a u b. c # cs = a @ u @ b \<longrightarrow> u \<notin> rx_lang placeholder_rx"
    proof (intro allI impI)
      fix a u b assume e: "c # cs = a @ u @ b"
      show "u \<notin> rx_lang placeholder_rx"
      proof (cases a)
        case Nil
        with e n show ?thesis by (auto simp: exec_at_None_iff)
      next
        case (Cons x a')
        with e ih show ?thesis by auto
      qed
    qed
  qed
qed

text \<open>
  C4. On a text in which no substring matches the pattern, \<^verbatim>\<open>replacePlaceholder\<close> returns
  the text itself, and reports nothing.
\<close>

theorem no_placeholder_identity:
  assumes "\<forall>a u b. s = a @ u @ b \<longrightarrow> u \<notin> rx_lang placeholder_rx"
  shows "replacePlaceholder (Suc n) fs s = Some (s, [])"
proof -
  from assms have "scan s = map Text s" by (rule scan_no_match [THEN iffD1])
  then show ?thesis by (simp add: replace_pieces_Text)
qed

theorem no_placeholder_identity_witness:
  "replacePlaceholder (Suc 0) Map.empty ''<p>{app:x} {svg}</p>'' = Some (''<p>{app:x} {svg}</p>'', [])"
proof -
  have h: "\<forall>a u b. ''<p>{app:x} {svg}</p>'' = a @ u @ b \<longrightarrow> u \<notin> rx_lang placeholder_rx"
    unfolding scan_no_match
    by (simp add: pattern_defs)
  from no_placeholder_identity [OF h, of 0 Map.empty] show ?thesis .
qed

text \<open>
  C2. A matched token whose fragment path does not exist is returned as it is, with nothing
  reported: in the output of the whole call the token stands verbatim between the results
  of the pieces before it and behind it.
\<close>

theorem missing_fragment_verbatim:
  assumes "scan s = ps @ Match t # qs" and "fs (token_filepath t) = None"
  shows "callback recur fs t = Some (t, []) \<and>
         replacePlaceholder (Suc n) fs s =
           then_result (replace_pieces (callback (replacePlaceholder n fs) fs) ps)
             (then_result (Some (t, []))
               (replace_pieces (callback (replacePlaceholder n fs) fs) qs))"
proof -
  have "Match t \<in> set (scan s)" using assms(1) by simp
  then have "2 \<le> length (token_match t)" using scan_matches token_match_lang by blast
  then have c: "\<And>r. callback r fs t = Some (t, [])" using assms(2) by (simp add: callback_def)
  then show ?thesis using assms(1) by (simp add: replace_pieces_append)
qed

theorem missing_fragment_verbatim_witness:
  "scan ''{app:{missing}}'' = [] @ Match ''{app:{missing}}'' # [] \<and>
   Map.empty (token_filepath ''{app:{missing}}'') = (None :: node option) \<and>
   replacePlaceholder (Suc 0) Map.empty ''{app:{missing}}'' = Some (''{app:{missing}}'', [])"
proof -
  have h: "scan ''{app:{missing}}'' = [] @ Match ''{app:{missing}}'' # []"
    by (simp add: pattern_defs)
  have e: "(Map.empty :: filesystem) (token_filepath ''{app:{missing}}'') = None" by simp
  from missing_fragment_verbatim [OF h e, of "\<lambda>x. None" 0] h show ?thesis by simp
qed

subsection \<open>The fragment path\<close>

lemma split_on_slash_append [simp]:
  "CHR ''/'' \<notin> set a \<Longrightarrow> split_on CHR ''/'' (a @ CHR ''/'' # b) = a # split_on CHR ''/'' b"
  by (rule split_on_append)

lemma path_join_plain:
  assumes "k \<in> kinds" "plain_segment c" "CHR ''/'' \<notin> set f"
  shows "path_join [''components'', mapped_kind k, c, f @ kind_extension k] =
         ''components/'' @ mapped_kind k @ ''/'' @ c @ ''/'' @ f @ kind_extension k"
proof -
  let ?e = "kind_extension k"
  have f: "CHR ''/'' \<notin> set (f @ ?e)" "f @ ?e \<noteq> []" "f @ ?e \<noteq> ''.''" "f @ ?e \<noteq> ''..''"
    "last (f @ ?e) \<noteq> CHR ''/''"
    using assms(3) by (auto simp: kind_extension_def append_eq_Cons_conv)
  from assms(2) have c: "c \<noteq> []" "CHR ''/'' \<notin> set c" "c \<noteq> ''.''" "c \<noteq> ''..''"
    by (auto simp: plain_segment_def)
  have s: "split_on CHR ''/'' (c @ CHR ''/'' # f @ ?e) = [c, f @ ?e]"
    using c f by (simp add: split_on_no_sep)
  from assms(1) consider "k = ''app''" | "k = ''deferred''" | "k = ''svg''"
    by (auto simp: kinds_def)
  then show ?thesis
  proof cases
    case 1
    then show ?thesis using c f s
      by (simp add: path_join_def normalize_def mapped_kind_def)
  next
    case 2
    then show ?thesis using c f s
      by (simp add: path_join_def normalize_def mapped_kind_def)
  next
    case 3
    then show ?thesis using c f s
      by (simp add: path_join_def normalize_def mapped_kind_def)
  qed
qed

lemma token_filepath_parts:
  "token_filepath t =
     path_join [''components'', mapped_kind (token_match t ! 0), token_match t ! 1,
       (if length (token_match t) > 2 then token_match t ! 2 else token_match t ! 1) @
       kind_extension (token_match t ! 0)]"
  by (simp add: token_filepath_def mapped_kind_def kind_extension_def Let_def)

text \<open>
  C1. For a token of kind \<open>kind\<close> with category \<open>category\<close> and, in the three-part form,
  name \<open>name\<close>, the fragment path is \<^verbatim>\<open>path.join\<close> of \<^verbatim>\<open>components\<close>, the mapped kind
  (\<open>kind\<close> itself for \<^verbatim>\<open>app\<close>, \<^verbatim>\<open>app/_\<close> and \<open>kind\<close> otherwise), the category, and the name
  (the category when there is no name) with \<^verbatim>\<open>.svg\<close> for kind \<^verbatim>\<open>svg\<close> and \<^verbatim>\<open>.html\<close>
  otherwise. For ordinary path segments a deferred token is looked up at
  \<^verbatim>\<open>components/app/_deferred/<category>/<name>.html\<close>.
\<close>

theorem fragment_path:
  assumes "kind \<in> kinds"
    and "\<forall>x\<in>set (category @ name). x \<notin> {CHR ''{'', CHR ''}'', CHR '':''}"
  shows "token_filepath (two_part kind category) =
           path_join [''components'', if kind = ''app'' then kind else ''app/_'' @ kind, category,
             category @ (if kind = ''svg'' then ''.svg'' else ''.html'')] \<and>
         token_filepath (three_part kind category name) =
           path_join [''components'', if kind = ''app'' then kind else ''app/_'' @ kind, category,
             name @ (if kind = ''svg'' then ''.svg'' else ''.html'')] \<and>
         (plain_segment category \<and> CHR ''/'' \<notin> set name \<longrightarrow>
            token_filepath (three_part ''deferred'' category name) =
              ''components/app/_deferred/'' @ category @ ''/'' @ name @ ''.html'') \<and>
         (Match t \<in> set (scan s) \<longrightarrow>
            2 \<le> length (token_match t) \<and> token_match t ! 0 \<in> kinds \<and>
            token_filepath t =
              path_join [''components'',
                if token_match t ! 0 = ''app'' then token_match t ! 0 else ''app/_'' @ token_match t ! 0,
                token_match t ! 1,
                (if 2 < length (token_match t) then token_match t ! 2 else token_match t ! 1) @
                (if token_match t ! 0 = ''svg'' then ''.svg'' else ''.html'')])"
proof -
  have every: "2 \<le> length (token_match t) \<and> token_match t ! 0 \<in> kinds \<and>
            token_filepath t =
              path_join [''components'',
                if token_match t ! 0 = ''app'' then token_match t ! 0 else ''app/_'' @ token_match t ! 0,
                token_match t ! 1,
                (if 2 < length (token_match t) then token_match t ! 2 else token_match t ! 1) @
                (if token_match t ! 0 = ''svg'' then ''.svg'' else ''.html'')]"
    if "Match t \<in> set (scan s)"
  proof -
    from that have "t \<in> rx_lang placeholder_rx" by (rule scan_matches)
    then have "2 \<le> length (token_match t) \<and> token_match t ! 0 \<in> kinds"
      by (rule token_match_lang)
    then show ?thesis by (simp add: token_filepath_parts mapped_kind_def kind_extension_def)
  qed
  from assms(2) have c: "\<forall>x\<in>set category. x \<notin> {CHR ''{'', CHR ''}'', CHR '':''}" by simp
  have two: "token_match (two_part kind category) = [kind, category]"
    using assms(1) c by (rule token_match_two_part)
  have three: "token_match (three_part kind category name) = [kind, category, name]"
    using assms by (rule token_match_three_part)
  have d: "''deferred'' \<in> kinds" by (simp add: kinds_def)
  have three_d: "token_match (three_part ''deferred'' category name) = [''deferred'', category, name]"
    using d assms(2) by (rule token_match_three_part)
  have "plain_segment category \<Longrightarrow> CHR ''/'' \<notin> set name \<Longrightarrow>
        token_filepath (three_part ''deferred'' category name) =
          ''components/app/_deferred/'' @ category @ ''/'' @ name @ ''.html''"
    using path_join_plain [OF d, of category name]
    by (simp add: token_filepath_parts three_d) (simp add: mapped_kind_def kind_extension_def)
  moreover have "token_filepath (two_part kind category) =
           path_join [''components'', if kind = ''app'' then kind else ''app/_'' @ kind, category,
             category @ (if kind = ''svg'' then ''.svg'' else ''.html'')]"
    by (simp add: token_filepath_parts two mapped_kind_def kind_extension_def)
  moreover have "token_filepath (three_part kind category name) =
           path_join [''components'', if kind = ''app'' then kind else ''app/_'' @ kind, category,
             name @ (if kind = ''svg'' then ''.svg'' else ''.html'')]"
    by (simp add: token_filepath_parts three mapped_kind_def kind_extension_def)
  ultimately show ?thesis using every by blast
qed

theorem fragment_path_witness:
  "token_filepath ''{svg:{icon}}'' = ''components/app/_svg/icon/icon.svg'' \<and>
   token_filepath ''{app:{teaser:{teaser-large}}}'' = ''components/app/teaser/teaser-large.html'' \<and>
   token_filepath ''{deferred:{nav:{menu}}}'' = ''components/app/_deferred/nav/menu.html''"
proof -
  have k: "''svg'' \<in> kinds" "''app'' \<in> kinds" by (simp_all add: kinds_def)
  have "token_filepath (two_part ''svg'' ''icon'') =
          path_join [''components'', ''app/_svg'', ''icon'', ''icon.svg'']"
    using fragment_path [OF k(1), of "''icon''" "''x''"] by simp
  moreover have "token_filepath (three_part ''app'' ''teaser'' ''teaser-large'') =
          path_join [''components'', ''app'', ''teaser'', ''teaser-large.html'']"
    using fragment_path [OF k(2), of "''teaser''" "''teaser-large''"] by simp
  moreover have "token_filepath (three_part ''deferred'' ''nav'' ''menu'') =
          ''components/app/_deferred/nav/menu.html''"
    using fragment_path [OF k(2), of "''nav''" "''menu''"] by (simp add: plain_segment_def)
  ultimately show ?thesis
    by (simp add: two_part_def three_part_def path_join_def normalize_def)
qed

text \<open>
  C10. The text \<^verbatim>\<open>{app:{}}\<close> is a match: its category and its file name are empty, its
  fragment path is \<^verbatim>\<open>path.join('components', 'app', '', '.html')\<close>, which is
  \<^verbatim>\<open>components/app/.html\<close>, and without a file there the token is returned as it is.
\<close>

theorem empty_category_token:
  "scan ''{app:{}}'' = [Match ''{app:{}}''] \<and>
   token_match ''{app:{}}'' = [''app'', ''''] \<and>
   token_filepath ''{app:{}}'' = path_join [''components'', ''app'', '''', '''' @ ''.html''] \<and>
   path_join [''components'', ''app'', '''', '''' @ ''.html''] = ''components/app/.html'' \<and>
   (fs ''components/app/.html'' = None \<longrightarrow>
      replacePlaceholder (Suc n) fs ''{app:{}}'' = Some (''{app:{}}'', []))"
  by (simp add: pattern_defs callback_defs)

theorem empty_category_token_witness:
  "replacePlaceholder (Suc 0) Map.empty ''{app:{}}'' = Some (''{app:{}}'', [])"
proof -
  have "(Map.empty :: filesystem) ''components/app/.html'' = None" by simp
  with empty_category_token [of Map.empty 0] show ?thesis by blast
qed

subsection \<open>The bound on the depth\<close>

lemma then_result_Some:
  "then_result a b = Some r \<longleftrightarrow>
     (\<exists>o1 l1 o2 l2. a = Some (o1, l1) \<and> b = Some (o2, l2) \<and> r = (o1 @ o2, l1 @ l2))"
  by (cases a; cases b) auto

lemma replace_pieces_mono:
  assumes "\<And>m r. f m = Some r \<Longrightarrow> g m = Some r"
  shows "replace_pieces f ps = Some r \<Longrightarrow> replace_pieces g ps = Some r"
proof (induction ps arbitrary: r)
  case Nil
  then show ?case by simp
next
  case (Cons p ps)
  show ?case
  proof (cases p)
    case (Text c)
    with Cons show ?thesis by (auto simp: then_result_Some)
  next
    case (Match m)
    with Cons.prems obtain o1 l1 o2 l2 where
      "f m = Some (o1, l1)" "replace_pieces f ps = Some (o2, l2)" "r = (o1 @ o2, l1 @ l2)"
      by (auto simp: then_result_Some)
    with assms Cons.IH Match show ?thesis by (simp add: then_result_Some)
  qed
qed

lemma callback_unfold:
  "callback recur fs t =
     (if length (token_match t) < 2 then Some (t, [TypeError])
      else case fs (token_filepath t) of
             None \<Rightarrow> Some (t, [])
           | Some Unreadable \<Rightarrow> Some (t, [ReadError (token_filepath t)])
           | Some (File c) \<Rightarrow> recur (banner_start t @ c @ banner_end t))"
  by (simp add: callback_def Let_def)

lemma callback_mono:
  assumes "\<And>x r. f x = Some r \<Longrightarrow> g x = Some r"
    and "callback f fs t = Some r"
  shows "callback g fs t = Some r"
proof (cases "length (token_match t) < 2")
  case True
  with assms(2) show ?thesis by (simp add: callback_unfold)
next
  case False
  show ?thesis
  proof (cases "fs (token_filepath t)")
    case None
    with False assms(2) show ?thesis by (simp add: callback_unfold)
  next
    case (Some nd)
    show ?thesis
    proof (cases nd)
      case (File x)
      with False Some assms(2) have "f (banner_start t @ x @ banner_end t) = Some r"
        by (simp add: callback_unfold)
      then have "g (banner_start t @ x @ banner_end t) = Some r" by (rule assms(1))
      with False Some File show ?thesis by (simp add: callback_unfold)
    next
      case Unreadable
      with False Some assms(2) show ?thesis by (simp add: callback_unfold)
    qed
  qed
qed

lemma fuel_Suc: "replacePlaceholder n fs s = Some r \<Longrightarrow> replacePlaceholder (Suc n) fs s = Some r"
proof (induction n arbitrary: s r)
  case 0
  then show ?case by simp
next
  case (Suc n)
  have "replace_pieces (callback (replacePlaceholder (Suc n) fs) fs) (scan s) = Some r"
  proof (rule replace_pieces_mono)
    show "replace_pieces (callback (replacePlaceholder n fs) fs) (scan s) = Some r"
      using Suc.prems by simp
  next
    fix m r'
    assume "callback (replacePlaceholder n fs) fs m = Some r'"
    with Suc.IH show "callback (replacePlaceholder (Suc n) fs) fs m = Some r'"
      by (rule callback_mono)
  qed
  then show ?case by simp
qed

lemma fuel_mono:
  "n \<le> m \<Longrightarrow> replacePlaceholder n fs s = Some r \<Longrightarrow> replacePlaceholder m fs s = Some r"
proof (induction rule: dec_induct)
  case base
  then show ?case .
next
  case (step m)
  then show ?case by (intro fuel_Suc) simp
qed

lemma callback_match:
  assumes "Match t \<in> set (scan s)"
  shows "callback recur fs t =
     (case fs (token_filepath t) of
        None \<Rightarrow> Some (t, [])
      | Some Unreadable \<Rightarrow> Some (t, [ReadError (token_filepath t)])
      | Some (File c) \<Rightarrow> recur (banner_start t @ c @ banner_end t))"
proof -
  have "2 \<le> length (token_match t)" using assms scan_matches token_match_lang by blast
  then show ?thesis by (simp add: callback_unfold)
qed

lemma replacePlaceholder_at:
  assumes "scan s = ps @ Match t # qs"
  shows "replacePlaceholder (Suc n) fs s =
           then_result (replace_pieces (callback (replacePlaceholder n fs) fs) ps)
             (then_result (callback (replacePlaceholder n fs) fs t)
               (replace_pieces (callback (replacePlaceholder n fs) fs) qs))"
  using assms by (simp add: replace_pieces_append)

subsection \<open>Substitution, banners and failures\<close>

text \<open>
  C3. For a matched token whose fragment is a readable file, the callback returns the result
  of \<^verbatim>\<open>replacePlaceholder\<close> on the fragment's text (with its banners), and that result
  stands in the place of the token. With a fragment \<^verbatim>\<open>a\<close> whose text is the token of a
  fragment \<^verbatim>\<open>b\<close> whose text is \<^verbatim>\<open>Y\<close>, a document with the token of \<^verbatim>\<open>a\<close> gets \<^verbatim>\<open>Y\<close> in
  its place, at every bound from three on.
\<close>

theorem nested_fragments_resolved:
  assumes "scan s = ps @ Match t # qs" and "fs (token_filepath t) = Some (File c)"
  shows "callback recur fs t = recur (banner_start t @ c @ banner_end t) \<and>
         replacePlaceholder (Suc n) fs s =
           then_result (replace_pieces (callback (replacePlaceholder n fs) fs) ps)
             (then_result (replacePlaceholder n fs (banner_start t @ c @ banner_end t))
               (replace_pieces (callback (replacePlaceholder n fs) fs) qs)) \<and>
         (fs' ''components/app/a/a.html'' = Some (File ''{app:{b}}'') \<and>
          fs' ''components/app/b/b.html'' = Some (File ''Y'') \<and> 3 \<le> m \<longrightarrow>
            replacePlaceholder m fs' ''<p>{app:{a}}</p>'' = Some (''<p>Y</p>'', []))"
proof -
  have "Match t \<in> set (scan s)" using assms(1) by simp
  then have c: "\<And>r. callback r fs t = r (banner_start t @ c @ banner_end t)"
    using assms(2) by (simp add: callback_match)
  have "replacePlaceholder m fs' ''<p>{app:{a}}</p>'' = Some (''<p>Y</p>'', [])"
    if a: "fs' ''components/app/a/a.html'' = Some (File ''{app:{b}}'')"
      and b: "fs' ''components/app/b/b.html'' = Some (File ''Y'')" and m: "3 \<le> m"
  proof -
    have "replacePlaceholder (Suc (Suc (Suc 0))) fs' ''<p>{app:{a}}</p>'' = Some (''<p>Y</p>'', [])"
      using a b by (simp add: pattern_defs callback_defs)
    with m show ?thesis unfolding numeral_3_eq_3 by (rule fuel_mono)
  qed
  then have ex: "fs' ''components/app/a/a.html'' = Some (File ''{app:{b}}'') \<and>
          fs' ''components/app/b/b.html'' = Some (File ''Y'') \<and> 3 \<le> m \<longrightarrow>
            replacePlaceholder m fs' ''<p>{app:{a}}</p>'' = Some (''<p>Y</p>'', [])"
    by blast
  have whole: "replacePlaceholder (Suc n) fs s =
           then_result (replace_pieces (callback (replacePlaceholder n fs) fs) ps)
             (then_result (replacePlaceholder n fs (banner_start t @ c @ banner_end t))
               (replace_pieces (callback (replacePlaceholder n fs) fs) qs))"
    unfolding replacePlaceholder_at [OF assms(1)] c ..
  from c whole ex show ?thesis by (intro conjI)
qed

theorem nested_fragments_resolved_witness:
  "replacePlaceholder 5 fs_nested ''<p>{app:{a}}</p>'' = Some (''<p>Y</p>'', [])"
proof -
  have s: "scan ''{app:{b}}'' = [] @ Match ''{app:{b}}'' # []"
    by (simp add: pattern_defs)
  have f: "fs_nested (token_filepath ''{app:{b}}'') = Some (File ''Y'')"
    by (simp add: callback_defs fs_nested_def)
  have m: "fs_nested ''components/app/a/a.html'' = Some (File ''{app:{b}}'') \<and>
           fs_nested ''components/app/b/b.html'' = Some (File ''Y'') \<and> (3::nat) \<le> 5"
    by (simp add: fs_nested_def)
  note inst = nested_fragments_resolved
    [of "''{app:{b}}''" "[]" "''{app:{b}}''" "[]" fs_nested "''Y''" "\<lambda>x. None" 0 fs_nested 5, OF s f]
  from inst [THEN conjunct2, THEN conjunct2, THEN mp, OF m] show ?thesis .
qed

lemma lang_starts_with_brace:
  "u \<in> rx_lang placeholder_rx \<Longrightarrow> CHR ''{'' \<in> set u"
  by (auto simp: placeholder_lang two_part_def three_part_def)

lemma no_brace_no_match:
  assumes "CHR ''{'' \<notin> set s"
  shows "scan s = map Text s"
proof -
  have "\<forall>a u b. s = a @ u @ b \<longrightarrow> u \<notin> rx_lang placeholder_rx"
    using assms lang_starts_with_brace by fastforce
  then show ?thesis by (rule scan_no_match [THEN iffD1])
qed

lemma no_brace_identity:
  "CHR ''{'' \<notin> set s \<Longrightarrow> replacePlaceholder (Suc n) fs s = Some (s, [])"
  by (simp add: no_brace_no_match replace_pieces_Text)

text \<open>
  C5, as the code has it. For a matched token of kind \<^verbatim>\<open>svg\<close> whose fragment is a readable
  file, the callback returns the result of \<^verbatim>\<open>replacePlaceholder\<close> on the line
  \<^verbatim>\<open><!-- START <path> -->\<close> with its line feed, the fragment's text, and the line
  \<^verbatim>\<open><!-- END <path> -->\<close> with its line feed; for the other kinds it is the result on the
  fragment's text alone. For an icon whose text has no opening brace the token
  \<^verbatim>\<open>{svg:{icon}}\<close> becomes the two banner lines around the text.
\<close>

theorem svg_banner:
  assumes "Match t \<in> set (scan s)" and "fs (token_filepath t) = Some (File c)"
  shows "(token_match t ! 0 = ''svg'' \<longrightarrow>
            callback recur fs t =
              recur (''<!-- START '' @ token_filepath t @ '' -->'' @ [CHR 0x0A] @ c @
                     ''<!-- END '' @ token_filepath t @ '' -->'' @ [CHR 0x0A])) \<and>
         (token_match t ! 0 \<noteq> ''svg'' \<longrightarrow> callback recur fs t = recur c) \<and>
         (fs' ''components/app/_svg/icon/icon.svg'' = Some (File x) \<and> CHR ''{'' \<notin> set x \<longrightarrow>
            replacePlaceholder (Suc (Suc n)) fs' ''{svg:{icon}}'' =
              Some (''<!-- START components/app/_svg/icon/icon.svg -->'' @ [CHR 0x0A] @ x @
                    ''<!-- END components/app/_svg/icon/icon.svg -->'' @ [CHR 0x0A], []))"
proof -
  have cb: "callback recur fs t = recur (banner_start t @ c @ banner_end t)"
    using assms by (simp add: callback_match)
  have icon: "replacePlaceholder (Suc (Suc n)) fs' ''{svg:{icon}}'' =
              Some (''<!-- START components/app/_svg/icon/icon.svg -->'' @ [CHR 0x0A] @ x @
                    ''<!-- END components/app/_svg/icon/icon.svg -->'' @ [CHR 0x0A], [])"
    if f: "fs' ''components/app/_svg/icon/icon.svg'' = Some (File x)" and x: "CHR ''{'' \<notin> set x"
  proof -
    let ?w = "''<!-- START components/app/_svg/icon/icon.svg -->'' @ [CHR 0x0A] @ x @
              ''<!-- END components/app/_svg/icon/icon.svg -->'' @ [CHR 0x0A]"
    have s: "scan ''{svg:{icon}}'' = [Match ''{svg:{icon}}'']" by (simp add: pattern_defs)
    have p: "token_filepath ''{svg:{icon}}'' = ''components/app/_svg/icon/icon.svg''"
      "token_isSvg ''{svg:{icon}}''"
      by (simp_all add: callback_defs)
    have "callback (replacePlaceholder (Suc n) fs') fs' ''{svg:{icon}}'' =
            replacePlaceholder (Suc n) fs' ?w"
      using f p by (simp add: callback_unfold banner_start_def banner_end_def)
        (simp add: token_match_def strip_braces_def)
    moreover have "replacePlaceholder (Suc n) fs' ?w = Some (?w, [])"
      using x by (intro no_brace_identity) simp
    ultimately show ?thesis using s by simp
  qed
  show ?thesis
    using cb icon by (auto simp: banner_start_def banner_end_def token_isSvg_def)
qed

theorem svg_banner_witness:
  "replacePlaceholder 2 fs_icon ''{svg:{icon}}'' =
     Some (''<!-- START components/app/_svg/icon/icon.svg -->'' @ [CHR 0x0A] @ ''X'' @
           ''<!-- END components/app/_svg/icon/icon.svg -->'' @ [CHR 0x0A], [])"
proof -
  have s: "Match ''{svg:{icon}}'' \<in> set (scan ''{svg:{icon}}'')" by (simp add: pattern_defs)
  have f: "fs_icon (token_filepath ''{svg:{icon}}'') = Some (File ''X'')"
    by (simp add: fs_icon_def callback_defs)
  have i: "fs_icon ''components/app/_svg/icon/icon.svg'' = Some (File ''X'') \<and> CHR ''{'' \<notin> set ''X''"
    by (simp add: fs_icon_def)
  note inst = svg_banner [of "''{svg:{icon}}''" "''{svg:{icon}}''" fs_icon "''X''" "\<lambda>x. None" fs_icon "''X''" 0, OF s f]
  from inst [THEN conjunct2, THEN conjunct2, THEN mp, OF i] show ?thesis
    by (simp add: numeral_2_eq_2)
qed

theorem svg_banner_counterexample:
  "replacePlaceholder 2 fs_icon ''{svg:{icon}}'' \<noteq>
     Some (''<!-- START components/app/_svg/icon/icon.svg -->'' @ ''X'' @
           ''<!-- END components/app/_svg/icon/icon.svg -->'', [])"
  by (simp add: numeral_2_eq_2 fs_icon_def pattern_defs callback_defs)

text \<open>
  C7. When reading the fragment of a matched token fails, and when \<^verbatim>\<open>path.join\<close> throws,
  the callback reports the error once and returns the token; the whole call returns, with
  the token in its place between the results of the other pieces, which are what they are
  without the failure.
\<close>

theorem failure_contained:
  assumes "scan s = ps @ Match t # qs" and "fs (token_filepath t) = Some Unreadable"
  shows "callback recur fs t = Some (t, [ReadError (token_filepath t)]) \<and>
         replacePlaceholder (Suc n) fs s =
           then_result (replace_pieces (callback (replacePlaceholder n fs) fs) ps)
             (then_result (Some (t, [ReadError (token_filepath t)]))
               (replace_pieces (callback (replacePlaceholder n fs) fs) qs)) \<and>
         (length (token_match t') < 2 \<longrightarrow> callback recur fs t' = Some (t', [TypeError]))"
proof -
  have "Match t \<in> set (scan s)" using assms(1) by simp
  then have c: "\<And>r. callback r fs t = Some (t, [ReadError (token_filepath t)])"
    using assms(2) by (simp add: callback_match)
  have whole: "replacePlaceholder (Suc n) fs s =
           then_result (replace_pieces (callback (replacePlaceholder n fs) fs) ps)
             (then_result (Some (t, [ReadError (token_filepath t)]))
               (replace_pieces (callback (replacePlaceholder n fs) fs) qs))"
    unfolding replacePlaceholder_at [OF assms(1)] c ..
  have "length (token_match t') < 2 \<longrightarrow> callback recur fs t' = Some (t', [TypeError])"
    by (simp add: callback_unfold)
  with c whole show ?thesis by (intro conjI)
qed

theorem failure_contained_witness:
  "replacePlaceholder 2 fs_broken ''{app:{footer}}{app:{teaser}}{app:{footer}}'' =
     Some (''F{app:{teaser}}F'', [ReadError ''components/app/teaser/teaser.html''])"
proof -
  have s: "scan ''{app:{footer}}{app:{teaser}}{app:{footer}}'' =
           [Match ''{app:{footer}}''] @ Match ''{app:{teaser}}'' # [Match ''{app:{footer}}'']"
    by (simp add: pattern_defs)
  have p: "token_filepath ''{app:{teaser}}'' = ''components/app/teaser/teaser.html''"
    by (simp add: callback_defs)
  have f: "fs_broken (token_filepath ''{app:{teaser}}'') = Some Unreadable"
    by (simp add: p fs_broken_def)
  have o: "callback (replacePlaceholder (Suc 0) fs_broken) fs_broken ''{app:{footer}}'' = Some (''F'', [])"
    by (simp add: fs_broken_def pattern_defs callback_defs)
  note inst = failure_contained
    [of "''{app:{footer}}{app:{teaser}}{app:{footer}}''" "[Match ''{app:{footer}}'']" "''{app:{teaser}}''"
        "[Match ''{app:{footer}}'']" fs_broken "\<lambda>x. None" "Suc 0" "[]", OF s f]
  show ?thesis
    unfolding numeral_2_eq_2 inst [THEN conjunct2, THEN conjunct1] by (simp add: o p)
qed

text \<open>
  C9. \<^verbatim>\<open>replacePlaceholder\<close> is not idempotent: with a fragment \<^verbatim>\<open>a\<close> whose text is the token
  of \<^verbatim>\<open>c\<close> followed by \<^verbatim>\<open>{b}}\<close>, and a fragment \<^verbatim>\<open>c\<close> whose text is \<^verbatim>\<open>{app:\<close>, the token of
  \<^verbatim>\<open>a\<close> becomes the text \<^verbatim>\<open>{app:{b}}\<close>, which a second call replaces by the text of \<^verbatim>\<open>b\<close>.
\<close>

theorem not_idempotent:
  "\<exists>fs s n r1 log1 r2 log2. finite (dom fs) \<and>
     replacePlaceholder n fs s = Some (r1, log1) \<and>
     replacePlaceholder n fs r1 = Some (r2, log2) \<and> r2 \<noteq> r1"
proof -
  have 1: "replacePlaceholder 3 fs_assemble ''{app:{a}}'' = Some (''{app:{b}}'', [])"
    by (simp add: numeral_3_eq_3 fs_assemble_def pattern_defs callback_defs)
  have 2: "replacePlaceholder 3 fs_assemble ''{app:{b}}'' = Some (''Y'', [])"
    by (simp add: numeral_3_eq_3 fs_assemble_def pattern_defs callback_defs)
  have "finite (dom fs_assemble)" by (simp add: fs_assemble_def)
  with 1 2 have "finite (dom fs_assemble) \<and>
     replacePlaceholder 3 fs_assemble ''{app:{a}}'' = Some (''{app:{b}}'', []) \<and>
     replacePlaceholder 3 fs_assemble ''{app:{b}}'' = Some (''Y'', []) \<and> ''Y'' \<noteq> ''{app:{b}}''"
    by simp
  then show ?thesis by blast
qed

subsection \<open>Tokens that are matched as a whole\<close>

lemma kinds_chars: "k \<in> kinds \<Longrightarrow> CHR ''}'' \<notin> set k \<and> CHR '':'' \<notin> set k"
  by (auto simp: kinds_def)

lemma category_char_not: "\<not> category_char CHR ''}''" "\<not> category_char CHR '':''"
  by (simp_all add: category_char_def word_char_def)

lemma lang_closing:
  "u \<in> rx_lang placeholder_rx \<Longrightarrow> 2 \<le> count_list u CHR ''}'' \<and> u \<noteq> [] \<and> last u = CHR ''}''"
  by (auto simp: placeholder_lang two_part_def three_part_def)

lemma lang_three_closing:
  "u = three_part k c n \<Longrightarrow> 3 \<le> count_list u CHR ''}''"
  by (simp add: three_part_def)

lemma takeWhile_until: "\<forall>x\<in>set a. P x \<Longrightarrow> \<not> P y \<Longrightarrow> takeWhile P (a @ y # b) = a"
  by (induction a) auto

lemma no_suffix_after_closing:
  assumes "t = u @ v" "last t = CHR ''}''" "count_list t CHR ''}'' \<le> count_list u CHR ''}''"
  shows "v = []"
proof (rule ccontr)
  assume v: "v \<noteq> []"
  with assms(1,2) have "CHR ''}'' \<in> set v" by (metis last_appendR last_in_set)
  then have "0 < count_list v CHR ''}''" using count_list_0_iff [of v "CHR ''}''"] by simp
  with assms(1,3) show False by simp
qed

lemma two_part_prefix:
  assumes "k \<in> kinds" "\<forall>x\<in>set c. category_char x"
    and "two_part k c = u @ v" "u \<in> rx_lang placeholder_rx"
  shows "v = []"
proof -
  have "CHR ''}'' \<notin> set c" using assms(2) category_char_not by blast
  then have "count_list (two_part k c) CHR ''}'' = 2"
    using kinds_chars [OF assms(1)] by (simp add: two_part_def count_list_0_iff)
  moreover have "last (two_part k c) = CHR ''}''" by (simp add: two_part_def)
  ultimately show ?thesis
    using no_suffix_after_closing [OF assms(3)] lang_closing [OF assms(4)] by simp
qed

lemma three_part_prefix:
  assumes "k \<in> kinds" "\<forall>x\<in>set (c @ n). x \<notin> {CHR ''{'', CHR ''}'', CHR '':''}"
    and "three_part k c n = u @ v" "u \<in> rx_lang placeholder_rx"
  shows "v = []"
proof -
  let ?a = "''{'' @ k @ '':{'' @ c @ '':{'' @ n"
  have cn: "CHR ''}'' \<notin> set c" "CHR ''}'' \<notin> set n" "CHR '':'' \<notin> set c" "CHR '':'' \<notin> set n"
    using assms(2) by auto
  have t: "three_part k c n = ?a @ CHR ''}'' # ''}}''" by (simp add: three_part_def)
  have a: "\<forall>x\<in>set ?a. x \<noteq> CHR ''}''" using cn kinds_chars [OF assms(1)] by auto
  have cnt: "count_list (three_part k c n) CHR ''}'' = 3"
    using cn kinds_chars [OF assms(1)] by (simp add: three_part_def count_list_0_iff)
  have l: "last (three_part k c n) = CHR ''}''" by (simp add: three_part_def)
  from assms(4) consider
    (two) k' c' where "k' \<in> kinds" "\<forall>x\<in>set c'. category_char x" "u = two_part k' c'"
  | (three) k' c' n' where "u = three_part k' c' n'"
    unfolding placeholder_lang by blast
  then show ?thesis
  proof cases
    case two
    let ?b = "''{'' @ k' @ '':{'' @ c'"
    have c': "CHR ''}'' \<notin> set c'" "CHR '':'' \<notin> set c'" using two(2) category_char_not by blast+
    have b: "\<forall>x\<in>set ?b. x \<noteq> CHR ''}''" using c' kinds_chars [OF two(1)] by auto
    have "u @ v = ?b @ CHR ''}'' # (''}'' @ v)" using two(3) by (simp add: two_part_def)
    then have "takeWhile (\<lambda>x. x \<noteq> CHR ''}'') (u @ v) = ?b"
      using takeWhile_until [OF b, of "CHR ''}''" "''}'' @ v"] by simp
    moreover have "takeWhile (\<lambda>x. x \<noteq> CHR ''}'') (three_part k c n) = ?a"
      unfolding t using takeWhile_until [OF a, of "CHR ''}''" "''}}''"] by simp
    ultimately have "?a = ?b" using assms(3) by simp
    then have "count_list ?a CHR '':'' = count_list ?b CHR '':''" by simp
    then show ?thesis
      using cn c' kinds_chars [OF assms(1)] kinds_chars [OF two(1)] by (simp add: count_list_0_iff)
  next
    case three
    then have "3 \<le> count_list u CHR ''}''" by (rule lang_three_closing)
    with cnt l show ?thesis using no_suffix_after_closing [OF assms(3)] by simp
  qed
qed

lemma then_result_Nil2 [simp]: "then_result x (Some ([], [])) = x"
  by (cases x) auto

lemma exec_at_whole:
  assumes "t \<in> rx_lang placeholder_rx"
    and "\<And>u v. t = u @ v \<Longrightarrow> u \<in> rx_lang placeholder_rx \<Longrightarrow> v = []"
  shows "exec_at t = Some (length t)"
proof (cases "exec_at t")
  case None
  then show ?thesis using assms(1) unfolding exec_at_None_iff by (metis append_Nil2)
next
  case (Some e)
  from exec_at_Some [OF Some] have e: "e \<le> length t" "take e t \<in> rx_lang placeholder_rx" by auto
  have "t = take e t @ drop e t" by simp
  from assms(2) [OF this e(2)] have "length t \<le> e" by simp
  with e(1) Some show ?thesis by simp
qed

lemma scan_whole:
  assumes "exec_at t = Some (length t)" "t \<noteq> []"
  shows "scan t = [Match t]"
proof -
  have "exec_at [] = None" using empty_not_lang by (simp add: exec_at_None_iff)
  then have e: "scan [] = []" by simp
  from assms(2) obtain c cs where t: "t = c # cs" by (cases t) auto
  show ?thesis using assms(1) e unfolding t by simp
qed

lemma scan_two_part:
  assumes "k \<in> kinds" "\<forall>x\<in>set c. category_char x"
  shows "scan (two_part k c) = [Match (two_part k c)]"
proof -
  have "two_part k c \<in> rx_lang placeholder_rx" unfolding placeholder_lang using assms by blast
  then have "exec_at (two_part k c) = Some (length (two_part k c))"
    using two_part_prefix [OF assms] by (rule exec_at_whole)
  then show ?thesis by (rule scan_whole) (simp add: two_part_def)
qed

lemma scan_three_part:
  assumes "k \<in> kinds" "c \<noteq> []" "n \<noteq> []"
    and "\<forall>x\<in>set (c @ n). dot_char x \<and> x \<notin> {CHR ''{'', CHR ''}'', CHR '':''}"
  shows "scan (three_part k c n) = [Match (three_part k c n)]"
proof -
  from assms(4) have p: "\<forall>x\<in>set (c @ n). x \<notin> {CHR ''{'', CHR ''}'', CHR '':''}"
    and d: "\<forall>x\<in>set c. dot_char x" "\<forall>x\<in>set n. dot_char x" by auto
  have "three_part k c n \<in> rx_lang placeholder_rx"
    unfolding placeholder_lang using assms(1-3) d by blast
  then have "exec_at (three_part k c n) = Some (length (three_part k c n))"
    using three_part_prefix [OF assms(1) p] by (rule exec_at_whole)
  then show ?thesis by (rule scan_whole) (simp add: three_part_def)
qed

text \<open>
  C6, as the code has it. Every text that is replaced has the form \<^verbatim>\<open>{kind:{category}}\<close>,
  with a category of word characters, bars and dashes (or none at all), or the nested form
  \<^verbatim>\<open>{kind:{category:{name}}}\<close>, with a category and a name of one character at least and
  without line terminators; the kind is \<^verbatim>\<open>app\<close>, \<^verbatim>\<open>deferred\<close> or \<^verbatim>\<open>svg\<close>. A text of the
  first form is one match; so is a text of the nested form whose category and name hold no
  brace, colon or line terminator, and with a readable fragment the call on it returns what
  the call on the fragment's text (with its banners) returns: the text itself, when the kind is
  not \<^verbatim>\<open>svg\<close> and the text has no opening brace.
\<close>

theorem placeholder_tokens:
  "(Match t \<in> set (scan s) \<longrightarrow>
      t \<in> {two_part k c | k c. k \<in> kinds \<and> (\<forall>x\<in>set c. category_char x)} \<union>
          {three_part k c n | k c n. k \<in> kinds \<and> c \<noteq> [] \<and> n \<noteq> [] \<and>
             (\<forall>x\<in>set c. dot_char x) \<and> (\<forall>x\<in>set n. dot_char x)}) \<and>
   (kind \<in> kinds \<and> (\<forall>x\<in>set category. category_char x) \<longrightarrow>
      scan (two_part kind category) = [Match (two_part kind category)]) \<and>
   (kind \<in> kinds \<and> category \<noteq> [] \<and> name \<noteq> [] \<and>
    (\<forall>x\<in>set (category @ name). dot_char x \<and> x \<notin> {CHR ''{'', CHR ''}'', CHR '':''}) \<longrightarrow>
      scan (three_part kind category name) = [Match (three_part kind category name)] \<and>
      (fs (token_filepath (three_part kind category name)) = Some (File content) \<longrightarrow>
         replacePlaceholder (Suc m) fs (three_part kind category name) =
           replacePlaceholder m fs
             (banner_start (three_part kind category name) @ content @
              banner_end (three_part kind category name)) \<and>
         (kind \<noteq> ''svg'' \<and> CHR ''{'' \<notin> set content \<longrightarrow>
            replacePlaceholder (Suc (Suc m)) fs (three_part kind category name) =
              Some (content, []))))"
proof (intro conjI impI)
  assume "Match t \<in> set (scan s)"
  then have "t \<in> rx_lang placeholder_rx" by (rule scan_matches)
  then show "t \<in> {two_part k c | k c. k \<in> kinds \<and> (\<forall>x\<in>set c. category_char x)} \<union>
          {three_part k c n | k c n. k \<in> kinds \<and> c \<noteq> [] \<and> n \<noteq> [] \<and>
             (\<forall>x\<in>set c. dot_char x) \<and> (\<forall>x\<in>set n. dot_char x)}"
    unfolding placeholder_lang .
next
  assume "kind \<in> kinds \<and> (\<forall>x\<in>set category. category_char x)"
  then show "scan (two_part kind category) = [Match (two_part kind category)]"
    by (simp add: scan_two_part)
next
  assume a: "kind \<in> kinds \<and> category \<noteq> [] \<and> name \<noteq> [] \<and>
    (\<forall>x\<in>set (category @ name). dot_char x \<and> x \<notin> {CHR ''{'', CHR ''}'', CHR '':''})"
  then show s: "scan (three_part kind category name) = [Match (three_part kind category name)]"
    by (intro scan_three_part) auto
  let ?t = "three_part kind category name"
  assume f: "fs (token_filepath ?t) = Some (File content)"
  have m: "Match ?t \<in> set (scan ?t)" using s by simp
  show r: "\<And>m. replacePlaceholder (Suc m) fs ?t =
           replacePlaceholder m fs (banner_start ?t @ content @ banner_end ?t)"
    using f by (simp add: s callback_match [OF m])
  assume c: "kind \<noteq> ''svg'' \<and> CHR ''{'' \<notin> set content"
  have "token_match ?t = [kind, category, name]"
    using a by (intro token_match_three_part) auto
  with c have "banner_start ?t = [] \<and> banner_end ?t = []"
    by (simp add: banner_start_def banner_end_def token_isSvg_def)
  moreover have "replacePlaceholder (Suc m) fs content = Some (content, [])"
    using c by (intro no_brace_identity) simp
  ultimately show "replacePlaceholder (Suc (Suc m)) fs ?t = Some (content, [])"
    unfolding r by simp
qed

theorem placeholder_tokens_witness:
  "replacePlaceholder (Suc (Suc 0)) fs_cat_name ''{app:{cat:{name}}}'' = Some (''X'', [])"
proof -
  have a: "''app'' \<in> kinds \<and> ''cat'' \<noteq> [] \<and> ''name'' \<noteq> [] \<and>
    (\<forall>x\<in>set (''cat'' @ ''name''). dot_char x \<and> x \<notin> {CHR ''{'', CHR ''}'', CHR '':''})"
    by (simp add: kinds_def dot_char_def)
  have f: "fs_cat_name (token_filepath (three_part ''app'' ''cat'' ''name'')) = Some (File ''X'')"
    by (simp add: fs_cat_name_def three_part_def callback_defs)
  have c: "''app'' \<noteq> ''svg'' \<and> CHR ''{'' \<notin> set ''X''" by simp
  note inst = placeholder_tokens
    [of "[]" "[]" "''app''" "''cat''" "''name''" fs_cat_name "''X''" 0,
     THEN conjunct2, THEN conjunct2, THEN mp, OF a, THEN conjunct2, THEN mp, OF f,
     THEN conjunct2, THEN mp, OF c]
  then show ?thesis by (simp add: three_part_def)
qed

theorem placeholder_tokens_counterexample:
  "fs_cat_name ''components/app/cat/name.html'' = Some (File ''X'') \<and>
   replacePlaceholder (Suc (Suc 0)) fs_cat_name ''{app:{cat}:{name}}'' =
     Some (''{app:{cat}:{name}}'', [])"
  by (simp add: fs_cat_name_def pattern_defs)

subsection \<open>Termination\<close>















subsection \<open>The stack with an end\<close>









end
